theory Spec2Isabelle
  imports Complex_Main "HOL-Library.AList"
begin

section \<open>Strings as Python handles them\<close>

text \<open>
  Text is a \<^typ>\<open>string\<close>, one \<^typ>\<open>char\<close> per character, and the model
  covers ASCII text: \<open>lower\<close> folds the letters A to Z, and the white space of
  \<open>str.split\<close>, \<open>str.strip\<close> and the regular expression class \<open>\s\<close> is the ASCII
  white space of Python (tab, line feed, vertical tab, form feed, carriage return, the four
  separators 28 to 31, and the blank). Every other character is left alone by \<open>lower\<close>
  and is no white space.
\<close>

definition lower_char :: "char \<Rightarrow> char" where
  "lower_char c =
     (if 65 \<le> (of_char c :: nat) \<and> (of_char c :: nat) \<le> 90
      then char_of ((of_char c :: nat) + 32) else c)"

definition lower :: "string \<Rightarrow> string" where
  "lower s = map lower_char s"

definition isspace :: "char \<Rightarrow> bool" where
  "isspace c =
     ((9 \<le> (of_char c :: nat) \<and> (of_char c :: nat) \<le> 13)
      \<or> (28 \<le> (of_char c :: nat) \<and> (of_char c :: nat) \<le> 32))"

text \<open>\<open>s.strip()\<close>: white space removed at both ends.\<close>

definition strip :: "string \<Rightarrow> string" where
  "strip s = rev (dropWhile isspace (rev (dropWhile isspace s)))"

text \<open>\<open>sub in s\<close> on strings: \<open>sub\<close> occurs in \<open>s\<close> as a contiguous run.\<close>

fun startswith :: "string \<Rightarrow> string \<Rightarrow> bool" where
  "startswith s [] = True"
| "startswith [] (p # ps) = False"
| "startswith (c # cs) (p # ps) = (c = p \<and> startswith cs ps)"

fun str_in :: "string \<Rightarrow> string \<Rightarrow> bool" where
  "str_in sub [] = (sub = [])"
| "str_in sub (c # cs) = (startswith (c # cs) sub \<or> str_in sub cs)"

text \<open>
  \<open>s.split()\<close> with no argument: the maximal runs of characters that are not white space,
  in order; \<open>split_acc\<close> carries the word being read.
\<close>

fun split_acc :: "string \<Rightarrow> string \<Rightarrow> string list" where
  "split_acc w [] = (if w = [] then [] else [w])"
| "split_acc w (c # cs) =
     (if isspace c then (if w = [] then split_acc [] cs else w # split_acc [] cs)
      else split_acc (w @ [c]) cs)"

definition split :: "string \<Rightarrow> string list" where
  "split s = split_acc [] s"

text \<open>\<open>sep.join(xs)\<close>.\<close>

fun join :: "string \<Rightarrow> string list \<Rightarrow> string" where
  "join sep [] = []"
| "join sep [x] = x"
| "join sep (x # y # ys) = x @ sep @ join sep (y # ys)"

text \<open>\<open>str(n)\<close> for a non-negative integer, as an f-string formats a page number.\<close>

fun str_nat :: "nat \<Rightarrow> string" where
  "str_nat n =
     (if n < 10 then [char_of (48 + n)]
      else str_nat (n div 10) @ [char_of (48 + n mod 10)])"

section \<open>The regular expressions of \<open>extract_company_name\<close>\<close>

text \<open>
  The five patterns use literal characters, \<open>\s+\<close> (greedy) and one capturing group
  \<open>([^,\.]+?)\<close> (lazy). \<open>re_match\<close> is the backtracking matcher of Python's \<open>re\<close> on
  that fragment, anchored at the start of the text: a greedy repetition tries to take one
  more character before it tries the rest of the pattern, a lazy one tries the rest of the
  pattern first. It returns the text captured by the group in the first successful attempt.
  \<open>re_search\<close> tries the start positions from left to right.
\<close>

datatype atom = Lit char | Space | NotCommaDot

datatype item = One atom | PlusGreedy atom | GroupPlusLazy atom

fun atom_ok :: "atom \<Rightarrow> char \<Rightarrow> bool" where
  "atom_ok (Lit l) c = (c = l)"
| "atom_ok Space c = isspace c"
| "atom_ok NotCommaDot c = (c \<noteq> CHR '','' \<and> c \<noteq> CHR ''.'')"

fun re_match :: "item list \<Rightarrow> string \<Rightarrow> string \<Rightarrow> string option" where
  "re_match [] s cap = Some cap"
| "re_match (it # r) [] cap = None"
| "re_match (One a # r) (c # cs) cap =
     (if atom_ok a c then re_match r cs cap else None)"
| "re_match (PlusGreedy a # r) (c # cs) cap =
     (if atom_ok a c
      then (case re_match (PlusGreedy a # r) cs cap of
              Some g \<Rightarrow> Some g
            | None \<Rightarrow> re_match r cs cap)
      else None)"
| "re_match (GroupPlusLazy a # r) (c # cs) cap =
     (if atom_ok a c
      then (case re_match r cs (cap @ [c]) of
              Some g \<Rightarrow> Some g
            | None \<Rightarrow> re_match (GroupPlusLazy a # r) cs (cap @ [c]))
      else None)"

fun re_search :: "item list \<Rightarrow> string \<Rightarrow> string option" where
  "re_search p [] = re_match p [] []"
| "re_search p (c # cs) =
     (case re_match p (c # cs) [] of
        Some g \<Rightarrow> Some g
      | None \<Rightarrow> re_search p cs)"

definition lit :: "string \<Rightarrow> item list" where
  "lit s = map (\<lambda>c. One (Lit c)) s"

text \<open>The list \<open>patterns\<close> of the source, in its order.\<close>

definition patterns :: "item list list" where
  "patterns =
     [ lit ''For'' @ [PlusGreedy Space, GroupPlusLazy NotCommaDot] @ lit '','',
       lit ''Did'' @ [PlusGreedy Space, GroupPlusLazy NotCommaDot, PlusGreedy Space]
         @ lit ''announce'',
       lit ''by'' @ [PlusGreedy Space, GroupPlusLazy NotCommaDot, PlusGreedy Space]
         @ lit ''according'',
       lit ''at'' @ [PlusGreedy Space, GroupPlusLazy NotCommaDot, PlusGreedy Space]
         @ lit ''in'',
       lit ''What'' @ [PlusGreedy Space] @ lit ''is'' @ [PlusGreedy Space] @ lit ''the''
         @ [PlusGreedy Space, GroupPlusLazy NotCommaDot, One (Lit (CHR 0x27))] @ lit ''s'' ]"

section \<open>The language model client\<close>

text \<open>
  \<open>client.chat.completions.create\<close> is the only collaborator that answers. A client of
  type \<open>'s client\<close> takes the request and the state of the outside world and returns the
  new state with the content of the first choice, or \<open>None\<close> when the call (or reading
  its reply) raises. Nothing is assumed about it: it may answer the same request
  differently on each call. A function that leaves the state as it found it, for every
  client, has made no call.
\<close>

record request =
  system_content :: string
  user_content :: string
  max_tokens :: nat

type_synonym 's client = "request \<Rightarrow> 's \<Rightarrow> string option \<times> 's"

definition nl :: char where
  "nl = CHR 0x0A"

definition indent :: string where
  "indent = replicate 12 (CHR '' '')"

text \<open>The f-string \<open>prompt\<close> of \<open>answer_question_with_llm\<close>, line by line.\<close>

definition answer_prompt :: "string \<Rightarrow> string \<Rightarrow> string \<Rightarrow> string" where
  "answer_prompt question context kind =
     [nl] @ indent @ ''Answer the following question based ONLY on the provided context.''
     @ [nl] @ indent
     @ [nl] @ indent @ ''Context:''
     @ [nl] @ indent @ context
     @ [nl] @ indent
     @ [nl] @ indent @ ''Question: '' @ question
     @ [nl] @ indent
     @ [nl] @ indent @ ''The answer should be a '' @ kind
       @ ''. If the information is not available in the context, return ''
       @ [CHR 0x27] @ ''N/A'' @ [CHR 0x27] @ ''.''
     @ [nl] @ indent
     @ [nl] @ indent @ ''Answer:''
     @ [nl] @ indent"

definition answer_request :: "string \<Rightarrow> string \<Rightarrow> string \<Rightarrow> request" where
  "answer_request question context kind =
     \<lparr> system_content =
         ''You are a helpful assistant that answers questions based only on the provided context.'',
       user_content = answer_prompt question context kind,
       max_tokens = 100 \<rparr>"

definition answer_question_with_llm ::
  "'s client \<Rightarrow> string \<Rightarrow> string \<Rightarrow> string \<Rightarrow> 's \<Rightarrow> (string \<times> real) \<times> 's" where
  "answer_question_with_llm chat question context kind s =
     (case chat (answer_request question context kind) s of
        (Some content, s1) \<Rightarrow> ((strip content, 9 / 10), s1)
      | (None, s1) \<Rightarrow> ((''N/A'', 0), s1))"

definition name_request :: "string \<Rightarrow> request" where
  "name_request question =
     \<lparr> system_content =
         ''Extract only the company name from the following question. Return just the company name, nothing else.'',
       user_content = question,
       max_tokens = 50 \<rparr>"

definition extract_company_name_with_llm ::
  "'s client \<Rightarrow> string \<Rightarrow> 's \<Rightarrow> string option \<times> 's" where
  "extract_company_name_with_llm chat question s =
     (case chat (name_request question) s of
        (Some content, s1) \<Rightarrow> (Some (strip content), s1)
      | (None, s1) \<Rightarrow> (None, s1))"

section \<open>Extracting the company name\<close>

text \<open>The loop over \<open>patterns\<close>: the first pattern found in the question returns.\<close>

fun first_pattern :: "item list list \<Rightarrow> string \<Rightarrow> string option" where
  "first_pattern [] question = None"
| "first_pattern (p # ps) question =
     (case re_search p question of
        Some g \<Rightarrow> Some (strip g)
      | None \<Rightarrow> first_pattern ps question)"

definition extract_company_name ::
  "'s client \<Rightarrow> string \<Rightarrow> 's \<Rightarrow> string option \<times> 's" where
  "extract_company_name chat question s =
     (case first_pattern patterns question of
        Some name \<Rightarrow> (Some name, s)
      | None \<Rightarrow> extract_company_name_with_llm chat question s)"

section \<open>The metadata index\<close>

record doc_meta =
  company_name :: string
  sha1 :: string
  major_industry :: string
  has_share_buyback_plans :: "bool option"
  has_dividend_policy_changes :: "bool option"
  mentions_recent_mergers_and_acquisitions :: "bool option"

record question =
  text_q :: string
  kind_q :: string

text \<open>
  A Python dict keeps its keys in the order of their first insertion, and a later value for
  a key replaces the earlier one in place: an association list under \<open>AList.update\<close>.
  \<open>pdf_dir\<close> is the directory of documents as \<open>process_question\<close> sees it: for a
  document id, \<open>None\<close> when the file \<open><id>.pdf\<close> does not exist, and otherwise the pages
  that \<open>extract_text_from_pdf\<close> returns for it (none when the reader fails).
\<close>

record answerer =
  pdf_dir :: "string \<Rightarrow> string list option"
  pdf_meta :: "doc_meta list"
  questions :: "question list"
  company_to_sha1 :: "(string \<times> string) list"
  sha1_to_meta :: "(string \<times> doc_meta) list"

definition init ::
  "(string \<Rightarrow> string list option) \<Rightarrow> doc_meta list \<Rightarrow> question list \<Rightarrow> answerer" where
  "init dir metas qs =
     \<lparr> pdf_dir = dir, pdf_meta = metas, questions = qs,
       company_to_sha1 =
         foldl (\<lambda>d m. AList.update (lower (company_name m)) (sha1 m) d) [] metas,
       sha1_to_meta = foldl (\<lambda>d m. AList.update (sha1 m) m d) [] metas \<rparr>"

section \<open>Resolving a company name to a document\<close>

definition overlap :: "string \<Rightarrow> string \<Rightarrow> nat" where
  "overlap company_lower comp_name =
     card (set (split company_lower) \<inter> set (split comp_name))"

text \<open>The loop over \<open>company_to_sha1.items()\<close>, carrying \<open>best_match\<close> and \<open>best_score\<close>.\<close>

fun fuzzy_loop ::
  "string \<Rightarrow> (string \<times> string) list \<Rightarrow> string option \<Rightarrow> nat \<Rightarrow> string option \<times> nat" where
  "fuzzy_loop company_lower [] best_match best_score = (best_match, best_score)"
| "fuzzy_loop company_lower ((comp_name, sha) # rest) best_match best_score =
     (if overlap company_lower comp_name > best_score
      then fuzzy_loop company_lower rest (Some sha) (overlap company_lower comp_name)
      else fuzzy_loop company_lower rest best_match best_score)"

definition find_pdf_for_company :: "answerer \<Rightarrow> string \<Rightarrow> string option" where
  "find_pdf_for_company a name =
     (let company_lower = lower name in
      case map_of (company_to_sha1 a) company_lower of
        Some sha \<Rightarrow> Some sha
      | None \<Rightarrow>
          (case fuzzy_loop company_lower (company_to_sha1 a) None 0 of
             (best_match, best_score) \<Rightarrow> if best_score > 0 then best_match else None))"

section \<open>Answer records\<close>

record reference =
  pdf_sha1 :: string
  page_index :: int

record answer_record =
  question_text :: string
  answer_value :: string
  references :: "reference list"

definition unresolved :: "string \<Rightarrow> answer_record" where
  "unresolved q = \<lparr> question_text = q, answer_value = ''N/A'', references = [] \<rparr>"

section \<open>The metadata short-circuit\<close>

text \<open>\<open>meta.get(flag, False)\<close>, where \<open>meta\<close> is \<open>sha1_to_meta.get(sha1, {})\<close>.\<close>

definition meta_get :: "doc_meta option \<Rightarrow> (doc_meta \<Rightarrow> bool option) \<Rightarrow> bool" where
  "meta_get meta flag =
     (case meta of
        None \<Rightarrow> False
      | Some m \<Rightarrow> (case flag m of None \<Rightarrow> False | Some b \<Rightarrow> b))"

text \<open>
  The three \<open>if\<close> blocks before the page scan: \<open>Some\<close> of the record that the first block
  to fire returns, \<open>None\<close> when none fires and the scan begins.
\<close>

definition metadata_answer ::
  "doc_meta option \<Rightarrow> string \<Rightarrow> string \<Rightarrow> string \<Rightarrow> answer_record option" where
  "metadata_answer meta sha q kind =
     (let r = \<lparr> question_text = q, answer_value = ''False'',
                references = [\<lparr> pdf_sha1 = sha, page_index = 0 \<rparr>] \<rparr> in
      if str_in ''share buyback'' (lower q) \<and> \<not> meta_get meta has_share_buyback_plans
         \<and> kind = ''boolean'' \<and> str_in ''did'' (lower q) then Some r
      else if str_in ''dividend policy'' (lower q) \<and> \<not> meta_get meta has_dividend_policy_changes
         \<and> kind = ''boolean'' \<and> str_in ''did'' (lower q) then Some r
      else if str_in ''mergers'' (lower q)
         \<and> \<not> meta_get meta mentions_recent_mergers_and_acquisitions
         \<and> kind = ''boolean'' \<and> str_in ''did'' (lower q) then Some r
      else None)"

section \<open>Priority pages\<close>

definition financial_keywords :: "string list" where
  "financial_keywords =
     [''financial statements'', ''balance sheet'', ''income statement'', ''cash flow'',
      ''financial results'']"

definition leadership_keywords :: "string list" where
  "leadership_keywords =
     [''board of directors'', ''executive officers'', ''management'', ''leadership'']"

definition risk_keywords :: "string list" where
  "risk_keywords = [''risk factors'', ''risks'', ''uncertainties'']"

text \<open>
  One of the three tests of the loop body: some keyword of the cluster occurs in the
  lower-cased page and the cue occurs in the lower-cased question.
\<close>

definition cluster_hit :: "string list \<Rightarrow> string \<Rightarrow> string \<Rightarrow> string \<Rightarrow> bool" where
  "cluster_hit keywords cue q page =
     (list_ex (\<lambda>keyword. str_in keyword (lower page)) keywords \<and> str_in cue (lower q))"

fun priority_scan :: "string \<Rightarrow> nat \<Rightarrow> string list \<Rightarrow> nat list" where
  "priority_scan q i [] = []"
| "priority_scan q i (page # rest) =
     (if cluster_hit financial_keywords ''financial'' q page then [i] else [])
     @ (if cluster_hit leadership_keywords ''leadership'' q page then [i] else [])
     @ (if cluster_hit risk_keywords ''risk'' q page then [i] else [])
     @ priority_scan q (Suc i) rest"

definition priority_pages :: "string \<Rightarrow> string list \<Rightarrow> nat list" where
  "priority_pages q pages = priority_scan q 0 pages"

text \<open>How many of the three clusters hit for a question and a page.\<close>

definition hits :: "string \<Rightarrow> string \<Rightarrow> nat" where
  "hits q page =
     of_bool (cluster_hit financial_keywords ''financial'' q page)
     + of_bool (cluster_hit leadership_keywords ''leadership'' q page)
     + of_bool (cluster_hit risk_keywords ''risk'' q page)"

section \<open>Batches and the choice of the answer\<close>

text \<open>\<open>range(i, n, k)\<close> for a positive step.\<close>

function range_step :: "nat \<Rightarrow> nat \<Rightarrow> nat \<Rightarrow> nat list" where
  "range_step i n k = (if i < n \<and> 0 < k then i # range_step (i + k) n k else [])"
  by pat_completeness auto
termination
  by (relation "measure (\<lambda>(i, n, k). n - i)") auto

declare range_step.simps [simp del]

record best =
  best_answer :: string
  best_page_idx :: int
  best_confidence :: real

definition sep2 :: string where
  "sep2 = [nl, nl]"

text \<open>
  The context of a priority batch. The indices come from \<open>priority_pages\<close>, which are
  positions of \<open>pages\<close>, so \<open>pages[idx]\<close> never raises there.
\<close>

definition priority_context :: "string list \<Rightarrow> nat list \<Rightarrow> string" where
  "priority_context pages batch_indices =
     join sep2 (map (\<lambda>idx. ''Page '' @ str_nat idx @ '': '' @ pages ! idx) batch_indices)"

definition remaining_context :: "nat \<Rightarrow> string list \<Rightarrow> string" where
  "remaining_context i batch_pages =
     join sep2 (map (\<lambda>(j, page). ''Page '' @ str_nat (i + j) @ '': '' @ page)
                  (enumerate 0 batch_pages))"

text \<open>
  The inner loops that look for the page of an accepted batch answer: one question per
  page, and the first page whose answer equals the batch answer ends the loop. \<open>cur\<close> is
  \<open>best_page_idx\<close> as it was, which stays when no page agrees.
\<close>

fun locate_priority ::
  "'s client \<Rightarrow> string \<Rightarrow> string \<Rightarrow> string list \<Rightarrow> string \<Rightarrow> nat list \<Rightarrow> int \<Rightarrow> 's \<Rightarrow> int \<times> 's" where
  "locate_priority chat q kind pages answer [] cur s = (cur, s)"
| "locate_priority chat q kind pages answer (idx # rest) cur s =
     (case answer_question_with_llm chat q (pages ! idx) kind s of
        ((page_answer, page_confidence), s1) \<Rightarrow>
          if page_answer = answer then (int idx, s1)
          else locate_priority chat q kind pages answer rest cur s1)"

fun locate_remaining ::
  "'s client \<Rightarrow> string \<Rightarrow> string \<Rightarrow> string \<Rightarrow> nat \<Rightarrow> nat \<Rightarrow> string list \<Rightarrow> int \<Rightarrow> 's \<Rightarrow> int \<times> 's" where
  "locate_remaining chat q kind answer i j [] cur s = (cur, s)"
| "locate_remaining chat q kind answer i j (page # rest) cur s =
     (case answer_question_with_llm chat q page kind s of
        ((page_answer, page_confidence), s1) \<Rightarrow>
          if page_answer = answer then (int (i + j), s1)
          else locate_remaining chat q kind answer i (Suc j) rest cur s1)"

text \<open>
  The priority pass: the loop over \<open>range(0, len(priority_pages), 5)\<close>, given as the list of
  its start positions.
\<close>

fun priority_pass ::
  "'s client \<Rightarrow> string \<Rightarrow> string \<Rightarrow> string list \<Rightarrow> nat list \<Rightarrow> nat list \<Rightarrow> best \<Rightarrow> 's \<Rightarrow> best \<times> 's" where
  "priority_pass chat q kind pages prio [] b s = (b, s)"
| "priority_pass chat q kind pages prio (i # starts) b s =
     (let batch_indices = take 5 (drop i prio) in
      case answer_question_with_llm chat q (priority_context pages batch_indices) kind s of
        ((answer, confidence), s1) \<Rightarrow>
          if confidence > best_confidence b \<and> answer \<noteq> ''N/A''
          then (case locate_priority chat q kind pages answer batch_indices
                       (best_page_idx b) s1 of
                  (idx, s2) \<Rightarrow>
                    priority_pass chat q kind pages prio starts
                      \<lparr> best_answer = answer, best_page_idx = idx,
                        best_confidence = confidence \<rparr> s2)
          else priority_pass chat q kind pages prio starts b s1)"

text \<open>
  The remaining pass: the loop over \<open>range(0, len(pages), 5)\<close>; a window that holds a
  priority index is skipped.
\<close>

definition skipped :: "nat list \<Rightarrow> nat \<Rightarrow> bool" where
  "skipped prio i = list_ex (\<lambda>p. i \<le> p \<and> p < i + 5) prio"

fun remaining_pass ::
  "'s client \<Rightarrow> string \<Rightarrow> string \<Rightarrow> string list \<Rightarrow> nat list \<Rightarrow> nat list \<Rightarrow> best \<Rightarrow> 's \<Rightarrow> best \<times> 's" where
  "remaining_pass chat q kind pages prio [] b s = (b, s)"
| "remaining_pass chat q kind pages prio (i # starts) b s =
     (if skipped prio i then remaining_pass chat q kind pages prio starts b s
      else
        let batch_pages = take 5 (drop i pages) in
        case answer_question_with_llm chat q (remaining_context i batch_pages) kind s of
          ((answer, confidence), s1) \<Rightarrow>
            if confidence > best_confidence b \<and> answer \<noteq> ''N/A''
            then (case locate_remaining chat q kind answer i 0 batch_pages
                         (best_page_idx b) s1 of
                    (idx, s2) \<Rightarrow>
                      remaining_pass chat q kind pages prio starts
                        \<lparr> best_answer = answer, best_page_idx = idx,
                          best_confidence = confidence \<rparr> s2)
            else remaining_pass chat q kind pages prio starts b s1)"

text \<open>The part of \<open>process_question\<close> from \<open>best_answer = "N/A"\<close> to its end.\<close>

definition scan_pages ::
  "'s client \<Rightarrow> string \<Rightarrow> string \<Rightarrow> string \<Rightarrow> string list \<Rightarrow> 's \<Rightarrow> answer_record \<times> 's" where
  "scan_pages chat sha q kind pages s =
     (let b0 = \<lparr> best_answer = ''N/A'', best_page_idx = - 1, best_confidence = 0 \<rparr>;
          prio = priority_pages q pages in
      case (if prio \<noteq> []
            then priority_pass chat q kind pages prio (range_step 0 (length prio) 5) b0 s
            else (b0, s)) of
        (b1, s1) \<Rightarrow>
          (case (if best_answer b1 = ''N/A''
                 then remaining_pass chat q kind pages prio
                        (range_step 0 (length pages) 5) b1 s1
                 else (b1, s1)) of
             (b2, s2) \<Rightarrow>
               (\<lparr> question_text = q, answer_value = best_answer b2,
                  references =
                    (if best_page_idx b2 \<ge> 0
                     then [\<lparr> pdf_sha1 = sha, page_index = best_page_idx b2 \<rparr>]
                     else []) \<rparr>, s2)))"

text \<open>
  What \<open>best_page_idx\<close> may hold for a document with these pages: the sentinel or a
  position of \<open>pages\<close>.
\<close>

definition valid_idx :: "string list \<Rightarrow> int \<Rightarrow> bool" where
  "valid_idx pages idx = (idx = - 1 \<or> (0 \<le> idx \<and> idx < int (length pages)))"

text \<open>
  The contexts of the batches in the order in which the two passes ask about them, and the
  answer that the claim about the first batch with an answer describes: the contexts are
  asked in order, each in the state the one before left, and the first answer that is not
  "N/A" is returned, "N/A" when there is none. \<open>ask_all\<close> is the state after all of
  them were asked.
\<close>

definition priority_contexts :: "string list \<Rightarrow> nat list \<Rightarrow> string list" where
  "priority_contexts pages prio =
     map (\<lambda>i. priority_context pages (take 5 (drop i prio)))
       (range_step 0 (length prio) 5)"

definition remaining_contexts :: "string list \<Rightarrow> nat list \<Rightarrow> string list" where
  "remaining_contexts pages prio =
     map (\<lambda>i. remaining_context i (take 5 (drop i pages)))
       (filter (\<lambda>i. \<not> skipped prio i) (range_step 0 (length pages) 5))"

fun first_reply :: "'s client \<Rightarrow> string \<Rightarrow> string \<Rightarrow> string list \<Rightarrow> 's \<Rightarrow> string" where
  "first_reply chat q kind [] s = ''N/A''"
| "first_reply chat q kind (ctx # ctxs) s =
     (case answer_question_with_llm chat q ctx kind s of
        ((answer, confidence), s1) \<Rightarrow>
          if answer \<noteq> ''N/A'' then answer else first_reply chat q kind ctxs s1)"

fun ask_all :: "'s client \<Rightarrow> string \<Rightarrow> string \<Rightarrow> string list \<Rightarrow> 's \<Rightarrow> 's" where
  "ask_all chat q kind [] s = s"
| "ask_all chat q kind (ctx # ctxs) s =
     ask_all chat q kind ctxs (snd (answer_question_with_llm chat q ctx kind s))"

section \<open>One question, all questions, the command line\<close>

definition process_question ::
  "'s client \<Rightarrow> answerer \<Rightarrow> question \<Rightarrow> 's \<Rightarrow> answer_record \<times> 's" where
  "process_question chat a question_data s =
     (let q = text_q question_data; kind = kind_q question_data in
      case extract_company_name chat q s of
        (None, s1) \<Rightarrow> (unresolved q, s1)
      | (Some name, s1) \<Rightarrow>
          if name = [] then (unresolved q, s1)
          else (case find_pdf_for_company a name of
                  None \<Rightarrow> (unresolved q, s1)
                | Some sha \<Rightarrow>
                    if sha = [] then (unresolved q, s1)
                    else (case pdf_dir a sha of
                            None \<Rightarrow> (unresolved q, s1)
                          | Some pages \<Rightarrow>
                              if pages = [] then (unresolved q, s1)
                              else (case metadata_answer (map_of (sha1_to_meta a) sha)
                                           sha q kind of
                                      Some r \<Rightarrow> (r, s1)
                                    | None \<Rightarrow> scan_pages chat sha q kind pages s1))))"

fun process_all_questions ::
  "'s client \<Rightarrow> answerer \<Rightarrow> question list \<Rightarrow> 's \<Rightarrow> answer_record list \<times> 's" where
  "process_all_questions chat a [] s = ([], s)"
| "process_all_questions chat a (question_data # rest) s =
     (case process_question chat a question_data s of
        (result, s1) \<Rightarrow>
          (case process_all_questions chat a rest s1 of
             (results, s2) \<Rightarrow> (result # results, s2)))"

text \<open>
  A run of \<open>main\<close>. The two input files are given as what \<open>_load_json\<close> reads from them,
  \<open>None\<close> when the file is missing or no JSON, which raises out of \<open>main\<close>. \<open>saved\<close>
  is what \<open>save_results\<close> wrote, \<open>None\<close> when it was never called. The interpreter turns
  the way \<open>main\<close> ended into the exit code of the process: 0 when it returned, 1 when an
  exception left it.
\<close>

datatype ending = Returned | Raised

record 's run =
  ending_of :: ending
  saved :: "answer_record list option"
  world :: 's

definition exit_code :: "ending \<Rightarrow> int" where
  "exit_code e = (case e of Returned \<Rightarrow> 0 | Raised \<Rightarrow> 1)"

definition main ::
  "'s client \<Rightarrow> (string \<Rightarrow> string list option) \<Rightarrow> doc_meta list option \<Rightarrow>
   question list option \<Rightarrow> int option \<Rightarrow> 's \<Rightarrow> 's run" where
  "main chat dir meta_file questions_file single_question s =
     (case meta_file of
        None \<Rightarrow> \<lparr> ending_of = Raised, saved = None, world = s \<rparr>
      | Some metas \<Rightarrow>
          (case questions_file of
             None \<Rightarrow> \<lparr> ending_of = Raised, saved = None, world = s \<rparr>
           | Some qs \<Rightarrow>
               (let a = init dir metas qs in
                case single_question of
                  Some n \<Rightarrow>
                    if n < 0 \<or> n \<ge> int (length (questions a))
                    then \<lparr> ending_of = Returned, saved = None, world = s \<rparr>
                    else (case process_question chat a (questions a ! nat n) s of
                            (result, s1) \<Rightarrow>
                              \<lparr> ending_of = Returned, saved = Some [result], world = s1 \<rparr>)
                | None \<Rightarrow>
                    (case process_all_questions chat a (questions a) s of
                       (results, s1) \<Rightarrow>
                         \<lparr> ending_of = Returned, saved = Some results, world = s1 \<rparr>))))"

section \<open>Sample inputs\<close>

text \<open>
  A client that reads its replies from a script, one per call, and raises when the script
  is over; two metadata records; a directory with a two-page document, one with no file and
  one whose document yields no page; and questions about them.
\<close>

definition scripted :: "string option list client" where
  "scripted req s = (case s of [] \<Rightarrow> (None, []) | r # rs \<Rightarrow> (r, rs))"

definition acme :: doc_meta where
  "acme = \<lparr> company_name = ''Acme Corp'', sha1 = ''abc123'', major_industry = ''Tech'',
     has_share_buyback_plans = Some False, has_dividend_policy_changes = None,
     mentions_recent_mergers_and_acquisitions = Some True \<rparr>"

definition holdings :: doc_meta where
  "holdings = \<lparr> company_name = ''Acme Holdings'', sha1 = ''def456'', major_industry = ''Finance'',
     has_share_buyback_plans = None, has_dividend_policy_changes = Some True,
     mentions_recent_mergers_and_acquisitions = None \<rparr>"

definition acme_dir :: "string \<Rightarrow> string list option" where
  "acme_dir sha = (if sha = ''abc123'' then Some [''Cover'', ''Balance Sheet and risks''] else None)"



definition buyback_question :: question where
  "buyback_question = \<lparr> text_q = ''For Acme Corp, did the board announce a share buyback plan?'', kind_q = ''boolean'' \<rparr>"



definition seven_pages :: "string list" where
  "seven_pages = [''Cover'', ''Contents'', ''Letter'', ''Products'', ''Staff'', ''Sites'',
                  ''Main risks: fire'']"

definition accepted :: best where
  "accepted = \<lparr> best_answer = ''42'', best_page_idx = 1, best_confidence = 9 / 10 \<rparr>"

definition results_question :: question where
  "results_question =
     \<lparr> text_q = ''For Acme Corp, what were the financial results?'', kind_q = ''number'' \<rparr>"

section \<open>Company name extraction\<close>

lemma first_pattern_split:
  assumes "ps = pre @ p # post"
    and "\<forall>p' \<in> set pre. re_search p' question = None"
    and "re_search p question = Some g"
  shows "first_pattern ps question = Some (strip g)"
  using assms by (induction pre arbitrary: ps) auto

lemma first_pattern_None:
  "first_pattern ps question = None \<longleftrightarrow> (\<forall>p \<in> set ps. re_search p question = None)"
  by (induction ps) (auto split: option.splits)

lemma first_pattern_Some:
  "first_pattern ps question = Some n \<Longrightarrow>
   \<exists>pre p post g. ps = pre @ p # post \<and> (\<forall>p' \<in> set pre. re_search p' question = None)
     \<and> re_search p question = Some g \<and> n = strip g"
proof (induction ps)
  case Nil
  then show ?case by simp
next
  case (Cons a ps)
  show ?case
  proof (cases "re_search a question")
    case None
    with Cons obtain pre p post g where
      "ps = pre @ p # post" "\<forall>p' \<in> set pre. re_search p' question = None"
      "re_search p question = Some g" "n = strip g"
      by auto
    with None have "a # ps = (a # pre) @ p # post \<and> (\<forall>p' \<in> set (a # pre). re_search p' question = None)
      \<and> re_search p question = Some g \<and> n = strip g" by simp
    then show ?thesis by blast
  next
    case (Some g)
    with Cons.prems have "a # ps = [] @ a # ps \<and> (\<forall>p' \<in> set []. re_search p' question = None)
      \<and> re_search a question = Some g \<and> n = strip g" by simp
    then show ?thesis by blast
  qed
qed

text \<open>
  Claim C5. When at least one of the five patterns is found in the question text,
  \<open>extract_company_name\<close> returns the stripped group of the first pattern, in the order of
  the list, that is found; and it does so for every client and with the state of the world
  untouched: the fallback that asks the language model is not called.
\<close>

theorem extract_company_name_first_pattern:
  assumes "\<exists>p \<in> set patterns. re_search p question \<noteq> None"
  shows "\<exists>pre p post g. patterns = pre @ p # post
           \<and> (\<forall>p' \<in> set pre. re_search p' question = None)
           \<and> re_search p question = Some g
           \<and> (\<forall>chat s. extract_company_name chat question s = (Some (strip g), s))"
proof -
  from assms obtain n where n: "first_pattern patterns question = Some n"
    using first_pattern_None [of patterns question] by (cases "first_pattern patterns question") auto
  from first_pattern_Some [OF n] obtain pre p post g where
    d: "patterns = pre @ p # post" "\<forall>p' \<in> set pre. re_search p' question = None"
       "re_search p question = Some g" "n = strip g"
    by blast
  have "\<forall>chat s. extract_company_name chat question s = (Some (strip g), s)"
    using n d(4) by (simp add: extract_company_name_def)
  with d show ?thesis by blast
qed

theorem extract_company_name_first_pattern_witness:
  "(\<exists>p \<in> set patterns. re_search p ''Did Acme Corp announce a share buyback plan?'' \<noteq> None)
   \<and> (\<exists>pre p post g. patterns = pre @ p # post
           \<and> (\<forall>p' \<in> set pre. re_search p' ''Did Acme Corp announce a share buyback plan?'' = None)
           \<and> re_search p ''Did Acme Corp announce a share buyback plan?'' = Some g
           \<and> (\<forall>chat s. extract_company_name chat ''Did Acme Corp announce a share buyback plan?'' s = (Some (strip g), s)))"
proof -
  have h: "\<exists>p \<in> set patterns. re_search p ''Did Acme Corp announce a share buyback plan?'' \<noteq> None"
    by code_simp
  show ?thesis
    using h extract_company_name_first_pattern [OF h] by blast
qed

section \<open>The metadata short-circuit\<close>




section \<open>The single-question index\<close>

text \<open>
  Claim C2, amended. When the single-question index is negative or not below the number of
  loaded questions, \<open>main\<close> returns without processing a question, without a call to the
  client and without writing an output file; it returns normally, so the exit code of the
  process is 0.
\<close>

theorem main_invalid_index:
  assumes "n < 0 \<or> n \<ge> int (length qs)"
  shows "main chat dir (Some metas) (Some qs) (Some n) s
           = \<lparr> ending_of = Returned, saved = None, world = s \<rparr>
         \<and> exit_code (ending_of (main chat dir (Some metas) (Some qs) (Some n) s)) = 0"
  using assms by (auto simp: main_def init_def exit_code_def Let_def)

theorem main_invalid_index_witness:
  "((1::int) < 0 \<or> 1 \<ge> int (length [buyback_question]))
   \<and> main scripted acme_dir (Some [acme]) (Some [buyback_question]) (Some 1) []
       = \<lparr> ending_of = Returned, saved = None, world = [] \<rparr>"
proof -
  have h: "(1::int) < 0 \<or> 1 \<ge> int (length [buyback_question])" by simp
  show ?thesis
    using h main_invalid_index [OF h, where chat = scripted and dir = acme_dir
        and metas = "[acme]" and s = "[]"]
    by simp
qed

text \<open>
  Claim C2 as it was stated asks for an exit code other than 0; with one question loaded
  and index 1 the exit code is 0.
\<close>

theorem main_invalid_index_counterexample:
  "\<not> (exit_code (ending_of
         (main scripted acme_dir (Some [acme]) (Some [buyback_question]) (Some 1) [])) \<noteq> 0)"
  by code_simp

section \<open>An answer without a reference\<close>

text \<open>
  Claim C10. There are inputs on which \<open>process_question\<close> returns a value other than
  "N/A" with no reference. Here page 1 is the only priority page; the client answers "42"
  to the batch and "N/A" to the question about page 1 alone, so the batch answer is
  accepted and no page is found for it; the remaining pass is skipped, and the third reply
  of the script is never asked for.
\<close>

theorem answer_without_reference:
  "priority_pages (text_q results_question) [''Cover'', ''Balance Sheet and risks''] = [1]
   \<and> process_question scripted (init acme_dir [acme] []) results_question
         [Some ''42'', Some ''N/A'', Some ''41'']
       = (\<lparr> question_text = text_q results_question, answer_value = ''42'',
            references = [] \<rparr>, [Some ''41''])"
  by code_simp

section \<open>Resolving names against the index\<close>

text \<open>
  The name index after loading: a name is looked up to the document id of the last record
  that has it, and its keys stand in the order in which the names first occur in the
  metadata file.
\<close>

lemma map_of_foldl_update:
  "map_of (foldl (\<lambda>d m. AList.update (f m) (g m) d) d0 ms) k =
     (if filter (\<lambda>m. f m = k) ms = [] then map_of d0 k
      else Some (g (last (filter (\<lambda>m. f m = k) ms))))"
  by (induction ms rule: rev_induct) (auto simp: update_conv')

lemma keys_foldl_update:
  "map fst (foldl (\<lambda>d m. AList.update (f m) (g m) d) [] ms) = rev (remdups (rev (map f ms)))"
proof (induction ms rule: rev_induct)
  case Nil
  then show ?case by simp
next
  case (snoc m ms)
  let ?d = "foldl (\<lambda>d m. AList.update (f m) (g m) d) [] ms"
  have keys: "set (map fst ?d) = f ` set ms"
    using snoc.IH by simp
  show ?case
  proof (cases "f m \<in> f ` set ms")
    case True
    then have "map fst (AList.update (f m) (g m) ?d) = map fst ?d"
      using keys by (simp add: update_keys)
    with True snoc.IH show ?thesis by simp
  next
    case False
    then have "map fst (AList.update (f m) (g m) ?d) = map fst ?d @ [f m]"
      using keys by (simp add: update_keys)
    with False snoc.IH show ?thesis by simp
  qed
qed

lemma filter_distinct_map:
  "distinct (map f xs) \<Longrightarrow> m \<in> set xs \<Longrightarrow> filter (\<lambda>x. f x = f m) xs = [m]"
proof (induction xs)
  case Nil
  then show ?case by simp
next
  case (Cons x xs)
  show ?case
  proof (cases "x = m")
    case True
    with Cons.prems have "\<forall>y \<in> set xs. f y \<noteq> f m" by (auto simp: image_iff)
    then have "filter (\<lambda>x. f x = f m) xs = []" by (auto simp: filter_empty_conv)
    with True show ?thesis by simp
  next
    case False
    with Cons.prems have "m \<in> set xs" by simp
    with Cons.prems have "f x \<noteq> f m" by (auto simp: image_iff)
    with Cons \<open>m \<in> set xs\<close> show ?thesis by simp
  qed
qed

text \<open>
  Claim C8. For a record of the loaded metadata, a query that equals its company name up
  to letter case resolves to the document id of the last loaded record with that
  lower-cased name; when the lower-cased names of the metadata are pairwise different,
  that is the record's own document id.
\<close>

theorem exact_name_any_casing:
  assumes "m \<in> set metas" and "lower name = lower (company_name m)"
  shows "find_pdf_for_company (init dir metas qs) name =
           Some (sha1 (last (filter (\<lambda>m'. lower (company_name m') = lower name) metas)))
         \<and> (distinct (map (\<lambda>m'. lower (company_name m')) metas)
              \<longrightarrow> find_pdf_for_company (init dir metas qs) name = Some (sha1 m))"
proof -
  let ?same = "filter (\<lambda>m'. lower (company_name m') = lower name) metas"
  from assms have ne: "?same \<noteq> []" by (auto simp: filter_empty_conv)
  have look: "map_of (company_to_sha1 (init dir metas qs)) (lower name) = Some (sha1 (last ?same))"
    using ne by (simp add: init_def map_of_foldl_update)
  then have first: "find_pdf_for_company (init dir metas qs) name = Some (sha1 (last ?same))"
    by (simp add: find_pdf_for_company_def)
  have "?same = [m]" if "distinct (map (\<lambda>m'. lower (company_name m')) metas)"
    using filter_distinct_map [OF that assms(1)] assms(2) by simp
  with first show ?thesis by simp
qed

theorem exact_name_any_casing_witness:
  "acme \<in> set [acme, holdings]
   \<and> lower ''ACME corp'' = lower (company_name acme)
   \<and> distinct (map (\<lambda>m'. lower (company_name m')) [acme, holdings])
   \<and> find_pdf_for_company (init acme_dir [acme, holdings] []) ''ACME corp'' = Some ''abc123''"
proof -
  have h1: "acme \<in> set [acme, holdings]" by simp
  have h2: "lower ''ACME corp'' = lower (company_name acme)" by code_simp
  have h3: "distinct (map (\<lambda>m'. lower (company_name m')) [acme, holdings])" by code_simp
  have h4: "sha1 acme = ''abc123''" by code_simp
  show ?thesis
    using h1 h2 h3 h4 exact_name_any_casing [OF h1 h2, of acme_dir "[]"] by simp
qed

text \<open>
  The scan of the index either leaves the best match and score as they were, when no name
  scores above the score so far, or ends with the entry at some position \<open>i\<close> whose score
  is above the score so far, at least the score of every entry, and strictly above the
  score of every entry before it.
\<close>

lemma fuzzy_loop_cases:
  "(\<forall>j < length items. overlap cl (fst (items ! j)) \<le> bs)
     \<and> fuzzy_loop cl items bm bs = (bm, bs)
   \<or> (\<exists>i < length items.
        fuzzy_loop cl items bm bs = (Some (snd (items ! i)), overlap cl (fst (items ! i)))
        \<and> bs < overlap cl (fst (items ! i))
        \<and> (\<forall>j < length items. overlap cl (fst (items ! j)) \<le> overlap cl (fst (items ! i)))
        \<and> (\<forall>j < i. overlap cl (fst (items ! j)) < overlap cl (fst (items ! i))))"
proof (induction items arbitrary: bm bs)
  case Nil
  then show ?case by simp
next
  case (Cons kv rest)
  obtain k v where kv: "kv = (k, v)" by (cases kv)
  let ?ov = "\<lambda>xs j. overlap cl (fst (xs ! j))"
  show ?case
  proof (cases "bs < overlap cl k")
    case True
    then have step: "fuzzy_loop cl (kv # rest) bm bs = fuzzy_loop cl rest (Some v) (overlap cl k)"
      by (simp add: kv)
    from Cons.IH [of "overlap cl k" "Some v"] show ?thesis
    proof
      assume a: "(\<forall>j < length rest. ?ov rest j \<le> overlap cl k)
                 \<and> fuzzy_loop cl rest (Some v) (overlap cl k) = (Some v, overlap cl k)"
      have "\<forall>j < length (kv # rest). ?ov (kv # rest) j \<le> ?ov (kv # rest) 0"
      proof (intro allI impI)
        fix j assume "j < length (kv # rest)"
        then show "?ov (kv # rest) j \<le> ?ov (kv # rest) 0"
          using a by (cases j) (simp_all add: kv)
      qed
      with a step True have
        "0 < length (kv # rest)
         \<and> fuzzy_loop cl (kv # rest) bm bs = (Some (snd ((kv # rest) ! 0)), ?ov (kv # rest) 0)
         \<and> bs < ?ov (kv # rest) 0
         \<and> (\<forall>j < length (kv # rest). ?ov (kv # rest) j \<le> ?ov (kv # rest) 0)
         \<and> (\<forall>j < 0. ?ov (kv # rest) j < ?ov (kv # rest) 0)"
        by (simp add: kv)
      then show ?thesis by blast
    next
      assume "\<exists>i < length rest.
        fuzzy_loop cl rest (Some v) (overlap cl k) = (Some (snd (rest ! i)), ?ov rest i)
        \<and> overlap cl k < ?ov rest i
        \<and> (\<forall>j < length rest. ?ov rest j \<le> ?ov rest i)
        \<and> (\<forall>j < i. ?ov rest j < ?ov rest i)"
      then obtain i where i: "i < length rest"
        "fuzzy_loop cl rest (Some v) (overlap cl k) = (Some (snd (rest ! i)), ?ov rest i)"
        "overlap cl k < ?ov rest i"
        "\<forall>j < length rest. ?ov rest j \<le> ?ov rest i"
        "\<forall>j < i. ?ov rest j < ?ov rest i"
        by blast
      have le: "\<forall>j < length (kv # rest). ?ov (kv # rest) j \<le> ?ov (kv # rest) (Suc i)"
      proof (intro allI impI)
        fix j assume "j < length (kv # rest)"
        then show "?ov (kv # rest) j \<le> ?ov (kv # rest) (Suc i)"
          using i(3,4) by (cases j) (simp_all add: kv)
      qed
      have lt: "\<forall>j < Suc i. ?ov (kv # rest) j < ?ov (kv # rest) (Suc i)"
      proof (intro allI impI)
        fix j assume "j < Suc i"
        then show "?ov (kv # rest) j < ?ov (kv # rest) (Suc i)"
          using i(3,5) by (cases j) (simp_all add: kv)
      qed
      from i(1,2,3) step True le lt have
        "Suc i < length (kv # rest)
         \<and> fuzzy_loop cl (kv # rest) bm bs
             = (Some (snd ((kv # rest) ! Suc i)), ?ov (kv # rest) (Suc i))
         \<and> bs < ?ov (kv # rest) (Suc i)
         \<and> (\<forall>j < length (kv # rest). ?ov (kv # rest) j \<le> ?ov (kv # rest) (Suc i))
         \<and> (\<forall>j < Suc i. ?ov (kv # rest) j < ?ov (kv # rest) (Suc i))"
        by simp
      then show ?thesis by blast
    qed
  next
    case False
    then have step: "fuzzy_loop cl (kv # rest) bm bs = fuzzy_loop cl rest bm bs"
      by (simp add: kv)
    from Cons.IH [of bs bm] show ?thesis
    proof
      assume a: "(\<forall>j < length rest. ?ov rest j \<le> bs) \<and> fuzzy_loop cl rest bm bs = (bm, bs)"
      have "\<forall>j < length (kv # rest). ?ov (kv # rest) j \<le> bs"
      proof (intro allI impI)
        fix j assume "j < length (kv # rest)"
        then show "?ov (kv # rest) j \<le> bs"
          using a False by (cases j) (simp_all add: kv)
      qed
      with a step show ?thesis by simp
    next
      assume "\<exists>i < length rest.
        fuzzy_loop cl rest bm bs = (Some (snd (rest ! i)), ?ov rest i)
        \<and> bs < ?ov rest i
        \<and> (\<forall>j < length rest. ?ov rest j \<le> ?ov rest i)
        \<and> (\<forall>j < i. ?ov rest j < ?ov rest i)"
      then obtain i where i: "i < length rest"
        "fuzzy_loop cl rest bm bs = (Some (snd (rest ! i)), ?ov rest i)"
        "bs < ?ov rest i"
        "\<forall>j < length rest. ?ov rest j \<le> ?ov rest i"
        "\<forall>j < i. ?ov rest j < ?ov rest i"
        by blast
      have le: "\<forall>j < length (kv # rest). ?ov (kv # rest) j \<le> ?ov (kv # rest) (Suc i)"
      proof (intro allI impI)
        fix j assume "j < length (kv # rest)"
        then show "?ov (kv # rest) j \<le> ?ov (kv # rest) (Suc i)"
          using i(3,4) False by (cases j) (simp_all add: kv)
      qed
      have lt: "\<forall>j < Suc i. ?ov (kv # rest) j < ?ov (kv # rest) (Suc i)"
      proof (intro allI impI)
        fix j assume "j < Suc i"
        then show "?ov (kv # rest) j < ?ov (kv # rest) (Suc i)"
          using i(3,5) False by (cases j) (simp_all add: kv)
      qed
      from i(1,2,3) step le lt have
        "Suc i < length (kv # rest)
         \<and> fuzzy_loop cl (kv # rest) bm bs
             = (Some (snd ((kv # rest) ! Suc i)), ?ov (kv # rest) (Suc i))
         \<and> bs < ?ov (kv # rest) (Suc i)
         \<and> (\<forall>j < length (kv # rest). ?ov (kv # rest) j \<le> ?ov (kv # rest) (Suc i))
         \<and> (\<forall>j < Suc i. ?ov (kv # rest) j < ?ov (kv # rest) (Suc i))"
        by simp
      then show ?thesis by blast
    qed
  qed
qed

text \<open>
  Claim C3. Let the lower-cased query be no key of the index, and let \<open>items\<close> be the
  entries of the index in insertion order. If every indexed name has overlap 0 with the
  query, the result is absent. Otherwise the result is the document id of an entry whose
  overlap is positive, largest among all entries, and strictly larger than that of every
  entry before it: the first entry of largest overlap. The result is a function of the
  index entries and the query alone, so repeated calls agree.
\<close>

theorem fuzzy_resolution:
  assumes "map_of (company_to_sha1 a) (lower name) = None"
    and "items = company_to_sha1 a"
  shows "((\<forall>j < length items. overlap (lower name) (fst (items ! j)) = 0)
            \<longrightarrow> find_pdf_for_company a name = None)
       \<and> ((\<exists>j < length items. 0 < overlap (lower name) (fst (items ! j)))
            \<longrightarrow> (\<exists>i < length items.
                  find_pdf_for_company a name = Some (snd (items ! i))
                  \<and> 0 < overlap (lower name) (fst (items ! i))
                  \<and> (\<forall>j < length items. overlap (lower name) (fst (items ! j))
                                           \<le> overlap (lower name) (fst (items ! i)))
                  \<and> (\<forall>j < i. overlap (lower name) (fst (items ! j))
                                < overlap (lower name) (fst (items ! i)))))
       \<and> (\<forall>a'. company_to_sha1 a' = company_to_sha1 a
                \<longrightarrow> find_pdf_for_company a' name = find_pdf_for_company a name)"
proof -
  let ?cl = "lower name"
  have det: "\<forall>a'. company_to_sha1 a' = company_to_sha1 a
                \<longrightarrow> find_pdf_for_company a' name = find_pdf_for_company a name"
  proof (intro allI impI)
    fix a' :: answerer
    assume "company_to_sha1 a' = company_to_sha1 a"
    then show "find_pdf_for_company a' name = find_pdf_for_company a name"
      unfolding find_pdf_for_company_def Let_def by (simp split: option.splits)
  qed
  from fuzzy_loop_cases [of items ?cl 0 None]
  have "((\<forall>j < length items. overlap ?cl (fst (items ! j)) = 0)
            \<longrightarrow> find_pdf_for_company a name = None)
       \<and> ((\<exists>j < length items. 0 < overlap ?cl (fst (items ! j)))
            \<longrightarrow> (\<exists>i < length items.
                  find_pdf_for_company a name = Some (snd (items ! i))
                  \<and> 0 < overlap ?cl (fst (items ! i))
                  \<and> (\<forall>j < length items. overlap ?cl (fst (items ! j))
                                           \<le> overlap ?cl (fst (items ! i)))
                  \<and> (\<forall>j < i. overlap ?cl (fst (items ! j))
                                < overlap ?cl (fst (items ! i)))))"
  proof
    assume a0: "(\<forall>j < length items. overlap ?cl (fst (items ! j)) \<le> 0)
                \<and> fuzzy_loop ?cl items None 0 = (None, 0)"
    then have "find_pdf_for_company a name = None"
      using assms by (simp add: find_pdf_for_company_def)
    moreover from a0 have "\<not> (\<exists>j < length items. 0 < overlap ?cl (fst (items ! j)))"
      by auto
    ultimately show ?thesis by blast
  next
    assume "\<exists>i < length items.
        fuzzy_loop ?cl items None 0 = (Some (snd (items ! i)), overlap ?cl (fst (items ! i)))
        \<and> 0 < overlap ?cl (fst (items ! i))
        \<and> (\<forall>j < length items. overlap ?cl (fst (items ! j)) \<le> overlap ?cl (fst (items ! i)))
        \<and> (\<forall>j < i. overlap ?cl (fst (items ! j)) < overlap ?cl (fst (items ! i)))"
    then obtain i where i: "i < length items"
        "fuzzy_loop ?cl items None 0 = (Some (snd (items ! i)), overlap ?cl (fst (items ! i)))"
        "0 < overlap ?cl (fst (items ! i))"
        "\<forall>j < length items. overlap ?cl (fst (items ! j)) \<le> overlap ?cl (fst (items ! i))"
        "\<forall>j < i. overlap ?cl (fst (items ! j)) < overlap ?cl (fst (items ! i))"
      by blast
    from i(2,3) have "find_pdf_for_company a name = Some (snd (items ! i))"
      using assms by (simp add: find_pdf_for_company_def)
    moreover from i(1,3) have "\<not> (\<forall>j < length items. overlap ?cl (fst (items ! j)) = 0)"
      by auto
    ultimately show ?thesis using i by blast
  qed
  with det show ?thesis by blast
qed

theorem fuzzy_resolution_witness:
  "map_of (company_to_sha1 (init acme_dir [acme, holdings] [])) (lower ''Acme Group'') = None
   \<and> 0 < overlap (lower ''Acme Group'')
           (fst (company_to_sha1 (init acme_dir [acme, holdings] []) ! 0))
   \<and> (\<exists>i < length (company_to_sha1 (init acme_dir [acme, holdings] [])).
         find_pdf_for_company (init acme_dir [acme, holdings] []) ''Acme Group''
           = Some (snd (company_to_sha1 (init acme_dir [acme, holdings] []) ! i))
         \<and> (\<forall>j < i. overlap (lower ''Acme Group'')
                       (fst (company_to_sha1 (init acme_dir [acme, holdings] []) ! j))
                     < overlap (lower ''Acme Group'')
                       (fst (company_to_sha1 (init acme_dir [acme, holdings] []) ! i))))"
proof -
  let ?a = "init acme_dir [acme, holdings] []"
  have h1: "map_of (company_to_sha1 ?a) (lower ''Acme Group'') = None" by code_simp
  have h2: "0 < length (company_to_sha1 ?a)" by code_simp
  have h3: "0 < overlap (lower ''Acme Group'') (fst (company_to_sha1 ?a ! 0))" by code_simp
  from h2 h3 have h4: "\<exists>j < length (company_to_sha1 ?a).
      0 < overlap (lower ''Acme Group'') (fst (company_to_sha1 ?a ! j))" by blast
  show ?thesis
    using h1 h3 h4 fuzzy_resolution [OF h1 refl] by blast
qed

section \<open>Priority pages\<close>

lemma priority_scan_range:
  "x \<in> set (priority_scan q i pages) \<Longrightarrow> i \<le> x \<and> x < i + length pages"
proof (induction pages arbitrary: i)
  case Nil
  then show ?case by simp
next
  case (Cons page rest)
  from Cons.prems have "x = i \<or> x \<in> set (priority_scan q (Suc i) rest)"
    by (auto split: if_splits)
  then show ?case
  proof
    assume "x = i" then show ?thesis by simp
  next
    assume "x \<in> set (priority_scan q (Suc i) rest)"
    from Cons.IH [OF this] show ?thesis by simp
  qed
qed

lemma priority_scan_sorted: "sorted (priority_scan q i pages)"
proof (induction pages arbitrary: i)
  case Nil
  then show ?case by simp
next
  case (Cons page rest)
  have "\<forall>x \<in> set (priority_scan q (Suc i) rest). i \<le> x"
  proof
    fix x assume "x \<in> set (priority_scan q (Suc i) rest)"
    from priority_scan_range [OF this] show "i \<le> x" by simp
  qed
  with Cons.IH [of "Suc i"] show ?case
    by (auto simp: sorted_append)
qed

lemma priority_scan_count:
  "count_list (priority_scan q i pages) x =
     (if i \<le> x \<and> x < i + length pages then hits q (pages ! (x - i)) else 0)"
proof (induction pages arbitrary: i)
  case Nil
  then show ?case by simp
next
  case (Cons page rest)
  show ?case
  proof (cases "x = i")
    case True
    have "count_list (priority_scan q (Suc i) rest) i = 0"
      using Cons.IH [of "Suc i"] True by simp
    with True show ?thesis by (simp add: hits_def)
  next
    case False
    then have "count_list (priority_scan q i (page # rest)) x
                 = count_list (priority_scan q (Suc i) rest) x"
      by simp
    also have "\<dots> = (if Suc i \<le> x \<and> x < Suc i + length rest
                       then hits q (rest ! (x - Suc i)) else 0)"
      by (rule Cons.IH)
    also have "\<dots> = (if i \<le> x \<and> x < i + length (page # rest)
                       then hits q ((page # rest) ! (x - i)) else 0)"
      using False by (auto simp: nth_Cons')
    finally show ?thesis .
  qed
qed

text \<open>
  Claim C6. Every index of the priority list is a position of \<open>pages\<close>; the list is in
  non-decreasing order; and an index occurs in it exactly as often as clusters hit for its
  page, so it occurs more than once only for a page on which at least two clusters, each
  with its cue in the question, hit.
\<close>

theorem priority_pages_indices:
  "(\<forall>x \<in> set (priority_pages q pages). x < length pages)
   \<and> sorted (priority_pages q pages)
   \<and> (\<forall>x. count_list (priority_pages q pages) x =
            (if x < length pages then hits q (pages ! x) else 0))
   \<and> (\<forall>x. 1 < count_list (priority_pages q pages) x \<longrightarrow>
            x < length pages \<and> 2 \<le> hits q (pages ! x))"
proof -
  have r: "\<forall>x \<in> set (priority_pages q pages). x < length pages"
    using priority_scan_range [of _ q 0 pages] by (auto simp: priority_pages_def)
  have s: "sorted (priority_pages q pages)"
    by (simp add: priority_pages_def priority_scan_sorted)
  have c: "\<forall>x. count_list (priority_pages q pages) x =
              (if x < length pages then hits q (pages ! x) else 0)"
    by (simp add: priority_pages_def priority_scan_count)
  have d: "\<forall>x. 1 < count_list (priority_pages q pages) x \<longrightarrow>
              x < length pages \<and> 2 \<le> hits q (pages ! x)"
  proof (intro allI impI)
    fix x assume "1 < count_list (priority_pages q pages) x"
    with c show "x < length pages \<and> 2 \<le> hits q (pages ! x)"
      by (cases "x < length pages") auto
  qed
  from r s c d show ?thesis by blast
qed

theorem priority_pages_indices_witness:
  "priority_pages ''What financial risk is there?'' [''Cover'', ''Balance Sheet and risks''] = [1, 1]
   \<and> (1::nat) < count_list (priority_pages ''What financial risk is there?'' [''Cover'', ''Balance Sheet and risks'']) 1
   \<and> (1::nat) < length [''Cover'', ''Balance Sheet and risks'']
   \<and> 2 \<le> hits ''What financial risk is there?'' ([''Cover'', ''Balance Sheet and risks''] ! 1)"
proof -
  let ?q = "''What financial risk is there?''"
  let ?pages = "[''Cover'', ''Balance Sheet and risks'']"
  have p: "priority_pages ?q ?pages = [1, 1]" by code_simp
  have h: "(1::nat) < count_list (priority_pages ?q ?pages) 1"
    unfolding p by simp
  show ?thesis
    using p h priority_pages_indices [of ?q ?pages] by blast
qed

section \<open>Failing calls\<close>

lemma answer_failed:
  "chat (answer_request q ctx kind) s = (None, s1) \<Longrightarrow>
   answer_question_with_llm chat q ctx kind s = ((''N/A'', 0), s1)"
  by (simp add: answer_question_with_llm_def)

lemma answer_confidence:
  "answer_question_with_llm chat q ctx kind s = ((a, c), s1) \<Longrightarrow>
   c = 9 / 10 \<or> (a = ''N/A'' \<and> c = 0)"
  by (auto simp: answer_question_with_llm_def split: prod.splits option.splits)

lemma all_fail_answer:
  assumes "\<forall>req s'. fst (chat req s') = None"
  shows "fst (answer_question_with_llm chat q ctx kind s) = (''N/A'', 0)"
proof -
  obtain r s1 where c: "chat (answer_request q ctx kind) s = (r, s1)"
    by (cases "chat (answer_request q ctx kind) s")
  with assms have "r = None" by (metis fst_conv)
  with c show ?thesis by (simp add: answer_question_with_llm_def)
qed

lemma all_fail_priority_pass:
  assumes "\<forall>req s'. fst (chat req s') = None"
  shows "fst (priority_pass chat q kind pages prio starts b s) = b"
proof (induction starts arbitrary: s)
  case Nil
  then show ?case by simp
next
  case (Cons i starts)
  let ?ctx = "priority_context pages (take 5 (drop i prio))"
  obtain s1 where "answer_question_with_llm chat q ?ctx kind s = ((''N/A'', 0), s1)"
    using all_fail_answer [OF assms, of q ?ctx kind s]
    by (cases "answer_question_with_llm chat q ?ctx kind s") auto
  then show ?case using Cons.IH by simp
qed

lemma all_fail_remaining_pass:
  assumes "\<forall>req s'. fst (chat req s') = None"
  shows "fst (remaining_pass chat q kind pages prio starts b s) = b"
proof (induction starts arbitrary: s)
  case Nil
  then show ?case by simp
next
  case (Cons i starts)
  let ?ctx = "remaining_context i (take 5 (drop i pages))"
  obtain s1 where "answer_question_with_llm chat q ?ctx kind s = ((''N/A'', 0), s1)"
    using all_fail_answer [OF assms, of q ?ctx kind s]
    by (cases "answer_question_with_llm chat q ?ctx kind s") auto
  then show ?case using Cons.IH by simp
qed

lemma all_fail_scan_pages:
  assumes "\<forall>req s'. fst (chat req s') = None"
  shows "fst (scan_pages chat sha q kind pages s) = unresolved q"
proof -
  let ?b0 = "\<lparr> best_answer = ''N/A'', best_page_idx = - 1, best_confidence = 0 \<rparr>"
  let ?prio = "priority_pages q pages"
  obtain b1 s1 where p: "(if ?prio \<noteq> []
            then priority_pass chat q kind pages ?prio (range_step 0 (length ?prio) 5) ?b0 s
            else (?b0, s)) = (b1, s1)"
    by (cases "(if ?prio \<noteq> []
            then priority_pass chat q kind pages ?prio (range_step 0 (length ?prio) 5) ?b0 s
            else (?b0, s))")
  have b1: "b1 = ?b0"
  proof (cases "?prio = []")
    case True
    with p show ?thesis by simp
  next
    case False
    with p have "fst (priority_pass chat q kind pages ?prio
                        (range_step 0 (length ?prio) 5) ?b0 s) = b1"
      by simp
    then show ?thesis
      using all_fail_priority_pass [OF assms] by metis
  qed
  obtain b2 s2 where r: "remaining_pass chat q kind pages ?prio
                        (range_step 0 (length pages) 5) b1 s1 = (b2, s2)"
    by (cases "remaining_pass chat q kind pages ?prio (range_step 0 (length pages) 5) b1 s1")
  have b2: "b2 = ?b0"
  proof -
    from r have "fst (remaining_pass chat q kind pages ?prio
                        (range_step 0 (length pages) 5) b1 s1) = b2"
      by simp
    then show ?thesis
      using b1 all_fail_remaining_pass [OF assms] by metis
  qed
  show ?thesis
    unfolding scan_pages_def Let_def p using b1 b2 r by (simp add: unresolved_def)
qed

text \<open>
  Claim C4. When the call to the client raises, \<open>answer_question_with_llm\<close> returns "N/A"
  with confidence 0 and the state the call left. Such a result for a batch leaves the best
  answer, confidence and page as they were: the priority pass and the remaining pass go on
  with the next batch. Such a result for a single page does not set the page: when the
  batch answer is not "N/A", as it is wherever a page is looked for, the page loops go on
  with the next page. And when every call raises, the page scan ends with the unresolved
  record.
\<close>

theorem oracle_failure_absorbed:
  assumes "chat (answer_request q ctx kind) s = (None, s1)"
  shows "answer_question_with_llm chat q ctx kind s = ((''N/A'', 0), s1)
   \<and> (ctx = priority_context pages (take 5 (drop i prio)) \<longrightarrow>
        priority_pass chat q kind pages prio (i # starts) b s
          = priority_pass chat q kind pages prio starts b s1)
   \<and> (ctx = remaining_context i (take 5 (drop i pages)) \<and> \<not> skipped prio i \<longrightarrow>
        remaining_pass chat q kind pages prio (i # starts) b s
          = remaining_pass chat q kind pages prio starts b s1)
   \<and> (ctx = pages ! idx \<and> answer \<noteq> ''N/A'' \<longrightarrow>
        locate_priority chat q kind pages answer (idx # rest) cur s
          = locate_priority chat q kind pages answer rest cur s1)
   \<and> (answer \<noteq> ''N/A'' \<longrightarrow>
        locate_remaining chat q kind answer i j (ctx # others) cur s
          = locate_remaining chat q kind answer i (Suc j) others cur s1)
   \<and> ((\<forall>req s'. fst (chat req s') = None) \<longrightarrow>
        fst (scan_pages chat sha q kind pages s) = unresolved q)"
proof -
  have f: "answer_question_with_llm chat q ctx kind s = ((''N/A'', 0), s1)"
    using assms by (rule answer_failed)
  have 1: "ctx = priority_context pages (take 5 (drop i prio)) \<longrightarrow>
        priority_pass chat q kind pages prio (i # starts) b s
          = priority_pass chat q kind pages prio starts b s1"
    using f by (auto simp: Let_def)
  have 2: "ctx = remaining_context i (take 5 (drop i pages)) \<and> \<not> skipped prio i \<longrightarrow>
        remaining_pass chat q kind pages prio (i # starts) b s
          = remaining_pass chat q kind pages prio starts b s1"
    using f by (auto simp: Let_def)
  have 3: "ctx = pages ! idx \<and> answer \<noteq> ''N/A'' \<longrightarrow>
        locate_priority chat q kind pages answer (idx # rest) cur s
          = locate_priority chat q kind pages answer rest cur s1"
    using f by auto
  have 4: "answer \<noteq> ''N/A'' \<longrightarrow>
        locate_remaining chat q kind answer i j (ctx # others) cur s
          = locate_remaining chat q kind answer i (Suc j) others cur s1"
    using f by auto
  have 5: "(\<forall>req s'. fst (chat req s') = None) \<longrightarrow>
        fst (scan_pages chat sha q kind pages s) = unresolved q"
    by (intro impI) (rule all_fail_scan_pages)
  from f 1 2 3 4 5 show ?thesis by blast
qed


theorem oracle_failure_absorbed_witness:
  "scripted (answer_request ''q'' ''text'' ''number'') [None, Some ''7''] = (None, [Some ''7''])
   \<and> answer_question_with_llm scripted ''q'' ''text'' ''number'' [None, Some ''7'']
       = ((''N/A'', 0), [Some ''7''])
   \<and> locate_remaining scripted ''q'' ''number'' ''7'' 5 0 [''text'', ''more''] (- 1)
         [None, Some ''7'']
       = (6, [])"
proof -
  have h: "scripted (answer_request ''q'' ''text'' ''number'') [None, Some ''7'']
             = (None, [Some ''7''])"
    by (simp add: scripted_def)
  have n: "''7'' \<noteq> ''N/A''" by simp
  have l: "locate_remaining scripted ''q'' ''number'' ''7'' 5 (Suc 0) [''more''] (- 1) [Some ''7'']
             = (6, [])"
    by code_simp
  show ?thesis
    using h n l oracle_failure_absorbed [where chat = scripted and q = "''q''"
        and ctx = "''text''" and kind = "''number''" and s = "[None, Some ''7'']"
        and ?s1.0 = "[Some ''7'']" and answer = "''7''" and i = 5 and j = 0
        and others = "[''more'']" and cur = "- 1", OF h]
    by simp
qed

section \<open>References\<close>

text \<open>
  The page loops return the page they were given or a page of their batch; the two passes
  keep \<open>best_page_idx\<close> at the sentinel or at a position of \<open>pages\<close>.
\<close>

lemma locate_priority_idx:
  "locate_priority chat q kind pages answer batch cur s = (idx, s') \<Longrightarrow>
   idx = cur \<or> (\<exists>x \<in> set batch. idx = int x)"
proof (induction batch arbitrary: s)
  case Nil
  then show ?case by simp
next
  case (Cons x batch)
  obtain pa pc s1 where a: "answer_question_with_llm chat q (pages ! x) kind s = ((pa, pc), s1)"
    by (cases "answer_question_with_llm chat q (pages ! x) kind s") auto
  show ?case
  proof (cases "pa = answer")
    case True
    with Cons.prems a show ?thesis by simp
  next
    case False
    with Cons.prems a have "locate_priority chat q kind pages answer batch cur s1 = (idx, s')"
      by simp
    from Cons.IH [OF this] show ?thesis by auto
  qed
qed

lemma locate_remaining_idx:
  "locate_remaining chat q kind answer i j batch cur s = (idx, s') \<Longrightarrow>
   idx = cur \<or> (\<exists>x. i + j \<le> x \<and> x < i + j + length batch \<and> idx = int x)"
proof (induction batch arbitrary: j s)
  case Nil
  then show ?case by simp
next
  case (Cons page batch)
  obtain pa pc s1 where a: "answer_question_with_llm chat q page kind s = ((pa, pc), s1)"
    by (cases "answer_question_with_llm chat q page kind s") auto
  show ?case
  proof (cases "pa = answer")
    case True
    with Cons.prems a have "idx = int (i + j)" by simp
    then have "i + j \<le> i + j \<and> i + j < i + j + length (page # batch) \<and> idx = int (i + j)"
      by simp
    then show ?thesis by blast
  next
    case False
    with Cons.prems a have
      "locate_remaining chat q kind answer i (Suc j) batch cur s1 = (idx, s')"
      by simp
    from Cons.IH [OF this] show ?thesis
    proof
      assume "idx = cur" then show ?thesis by simp
    next
      assume "\<exists>x. i + Suc j \<le> x \<and> x < i + Suc j + length batch \<and> idx = int x"
      then obtain x where "i + Suc j \<le> x" "x < i + Suc j + length batch" "idx = int x"
        by blast
      then have "i + j \<le> x \<and> x < i + j + length (page # batch) \<and> idx = int x"
        by simp
      then show ?thesis by blast
    qed
  qed
qed

lemma priority_pass_valid:
  assumes "\<forall>x \<in> set prio. x < length pages"
  shows "valid_idx pages (best_page_idx b) \<Longrightarrow>
         priority_pass chat q kind pages prio starts b s = (b', s') \<Longrightarrow>
         valid_idx pages (best_page_idx b')"
proof (induction starts arbitrary: b s)
  case Nil
  then show ?case by simp
next
  case (Cons i starts)
  let ?batch = "take 5 (drop i prio)"
  obtain a c s1 where
    a: "answer_question_with_llm chat q (priority_context pages ?batch) kind s = ((a, c), s1)"
    by (cases "answer_question_with_llm chat q (priority_context pages ?batch) kind s") auto
  show ?case
  proof (cases "c > best_confidence b \<and> a \<noteq> ''N/A''")
    case True
    obtain idx s2 where
      l: "locate_priority chat q kind pages a ?batch (best_page_idx b) s1 = (idx, s2)"
      by (cases "locate_priority chat q kind pages a ?batch (best_page_idx b) s1")
    have sub: "set ?batch \<subseteq> set prio"
      by (meson set_take_subset set_drop_subset subset_trans)
    from locate_priority_idx [OF l] have "valid_idx pages idx"
    proof
      assume "idx = best_page_idx b"
      with Cons.prems(1) show ?thesis by simp
    next
      assume "\<exists>x \<in> set ?batch. idx = int x"
      then obtain x where "x \<in> set ?batch" "idx = int x" by blast
      with sub assms have "x < length pages" by blast
      with \<open>idx = int x\<close> show ?thesis by (simp add: valid_idx_def)
    qed
    moreover from Cons.prems(2) a True l have
      "priority_pass chat q kind pages prio starts
         \<lparr> best_answer = a, best_page_idx = idx, best_confidence = c \<rparr> s2 = (b', s')"
      by (simp add: Let_def)
    ultimately show ?thesis
      using Cons.IH [of "\<lparr> best_answer = a, best_page_idx = idx, best_confidence = c \<rparr>" s2]
      by simp
  next
    case False
    with Cons.prems(2) a have "priority_pass chat q kind pages prio starts b s1 = (b', s')"
      by (auto simp: Let_def)
    with Cons.IH [of b s1] Cons.prems(1) show ?thesis by simp
  qed
qed

lemma remaining_pass_valid:
  "valid_idx pages (best_page_idx b) \<Longrightarrow>
   remaining_pass chat q kind pages prio starts b s = (b', s') \<Longrightarrow>
   valid_idx pages (best_page_idx b')"
proof (induction starts arbitrary: b s)
  case Nil
  then show ?case by simp
next
  case (Cons i starts)
  let ?batch = "take 5 (drop i pages)"
  show ?case
  proof (cases "skipped prio i")
    case True
    with Cons.prems(2) have "remaining_pass chat q kind pages prio starts b s = (b', s')"
      by simp
    with Cons.IH [of b s] Cons.prems(1) show ?thesis by simp
  next
    case ns: False
    obtain a c s1 where
      a: "answer_question_with_llm chat q (remaining_context i ?batch) kind s = ((a, c), s1)"
      by (cases "answer_question_with_llm chat q (remaining_context i ?batch) kind s") auto
    show ?thesis
    proof (cases "c > best_confidence b \<and> a \<noteq> ''N/A''")
      case True
      obtain idx s2 where
        l: "locate_remaining chat q kind a i 0 ?batch (best_page_idx b) s1 = (idx, s2)"
        by (cases "locate_remaining chat q kind a i 0 ?batch (best_page_idx b) s1")
      from locate_remaining_idx [OF l] have "valid_idx pages idx"
      proof
        assume "idx = best_page_idx b"
        with Cons.prems(1) show ?thesis by simp
      next
        assume "\<exists>x. i + 0 \<le> x \<and> x < i + 0 + length ?batch \<and> idx = int x"
        then obtain x where x: "i \<le> x" "x < i + length ?batch" "idx = int x" by auto
        then have "x < length pages" by (simp add: min_def split: if_splits)
        with x show ?thesis by (simp add: valid_idx_def)
      qed
      moreover from Cons.prems(2) a True l ns have
        "remaining_pass chat q kind pages prio starts
           \<lparr> best_answer = a, best_page_idx = idx, best_confidence = c \<rparr> s2 = (b', s')"
        by (simp add: Let_def)
      ultimately show ?thesis
        using Cons.IH [of "\<lparr> best_answer = a, best_page_idx = idx, best_confidence = c \<rparr>" s2]
        by simp
    next
      case False
      with Cons.prems(2) a ns have "remaining_pass chat q kind pages prio starts b s1 = (b', s')"
        by (auto simp: Let_def)
      with Cons.IH [of b s1] Cons.prems(1) show ?thesis by simp
    qed
  qed
qed

lemma scan_pages_references:
  assumes "scan_pages chat sha q kind pages s = (r, s')"
  shows "length (references r) \<le> 1
         \<and> (\<forall>ref \<in> set (references r).
               pdf_sha1 ref = sha \<and> 0 \<le> page_index ref
               \<and> page_index ref < int (length pages))"
proof -
  let ?b0 = "\<lparr> best_answer = ''N/A'', best_page_idx = - 1, best_confidence = 0 \<rparr>"
  let ?prio = "priority_pages q pages"
  let ?first = "if ?prio \<noteq> []
            then priority_pass chat q kind pages ?prio (range_step 0 (length ?prio) 5) ?b0 s
            else (?b0, s)"
  obtain b1 s1 where p: "?first = (b1, s1)" by (cases ?first)
  let ?second = "if best_answer b1 = ''N/A''
                 then remaining_pass chat q kind pages ?prio
                        (range_step 0 (length pages) 5) b1 s1
                 else (b1, s1)"
  obtain b2 s2 where r: "?second = (b2, s2)" by (cases ?second)
  have v0: "valid_idx pages (best_page_idx ?b0)" by (simp add: valid_idx_def)
  have inr: "\<forall>x \<in> set ?prio. x < length pages"
    using priority_scan_range [of _ q 0 pages] by (auto simp: priority_pages_def)
  have v1: "valid_idx pages (best_page_idx b1)"
  proof (cases "?prio = []")
    case True
    with p v0 show ?thesis by auto
  next
    case False
    with p have "priority_pass chat q kind pages ?prio (range_step 0 (length ?prio) 5) ?b0 s
                   = (b1, s1)" by simp
    from priority_pass_valid [OF inr v0 this] show ?thesis .
  qed
  have v2: "valid_idx pages (best_page_idx b2)"
  proof (cases "best_answer b1 = ''N/A''")
    case True
    with r have "remaining_pass chat q kind pages ?prio (range_step 0 (length pages) 5) b1 s1
                   = (b2, s2)" by simp
    from remaining_pass_valid [OF v1 this] show ?thesis .
  next
    case False
    with r v1 show ?thesis by auto
  qed
  have "r = \<lparr> question_text = q, answer_value = best_answer b2,
                  references =
                    (if best_page_idx b2 \<ge> 0
                     then [\<lparr> pdf_sha1 = sha, page_index = best_page_idx b2 \<rparr>]
                     else []) \<rparr>"
    using assms by (simp add: scan_pages_def Let_def p r)
  with v2 show ?thesis by (auto simp: valid_idx_def)
qed

text \<open>
  Claim C7. A record returned by \<open>process_question\<close> has at most one reference, and a
  reference names the document that the question resolved to and a page index that is a
  position of the non-empty page sequence extracted from that document.
\<close>

theorem references_point_into_document:
  assumes "process_question chat a question_data s = (r, s')"
  shows "length (references r) \<le> 1
         \<and> (\<forall>ref \<in> set (references r).
               \<exists>name s1 pages.
                 extract_company_name chat (text_q question_data) s = (Some name, s1)
                 \<and> find_pdf_for_company a name = Some (pdf_sha1 ref)
                 \<and> pdf_dir a (pdf_sha1 ref) = Some pages
                 \<and> pages \<noteq> []
                 \<and> 0 \<le> page_index ref \<and> page_index ref < int (length pages))"
proof -
  let ?q = "text_q question_data"
  let ?kind = "kind_q question_data"
  let ?goal = "length (references r) \<le> 1
         \<and> (\<forall>ref \<in> set (references r).
               \<exists>name s1 pages.
                 extract_company_name chat ?q s = (Some name, s1)
                 \<and> find_pdf_for_company a name = Some (pdf_sha1 ref)
                 \<and> pdf_dir a (pdf_sha1 ref) = Some pages
                 \<and> pages \<noteq> []
                 \<and> 0 \<le> page_index ref \<and> page_index ref < int (length pages))"
  obtain n s1 where e: "extract_company_name chat ?q s = (n, s1)"
    by (cases "extract_company_name chat ?q s")
  have un: "r = unresolved ?q \<Longrightarrow> ?goal" by (simp add: unresolved_def)
  show ?thesis
  proof (cases n)
    case None
    with assms e have "r = unresolved ?q" by (simp add: process_question_def Let_def)
    then show ?thesis by (rule un)
  next
    case (Some name)
    show ?thesis
    proof (cases "name = [] \<or> find_pdf_for_company a name = None")
      case True
      with assms e Some have "r = unresolved ?q"
        by (auto simp: process_question_def Let_def split: if_splits)
      then show ?thesis by (rule un)
    next
      case False
      then obtain sha where f: "name \<noteq> []" "find_pdf_for_company a name = Some sha" by auto
      show ?thesis
      proof (cases "sha = [] \<or> pdf_dir a sha = None")
        case True
        with assms e Some f have "r = unresolved ?q"
          by (auto simp: process_question_def Let_def split: if_splits)
        then show ?thesis by (rule un)
      next
        case False
        then obtain pages where d: "sha \<noteq> []" "pdf_dir a sha = Some pages" by auto
        show ?thesis
        proof (cases "pages = []")
          case True
          with assms e Some f d have "r = unresolved ?q"
            by (auto simp: process_question_def Let_def)
          then show ?thesis by (rule un)
        next
          case ne: False
          have refs: "length (references r) \<le> 1
                      \<and> (\<forall>ref \<in> set (references r).
                            pdf_sha1 ref = sha \<and> 0 \<le> page_index ref
                            \<and> page_index ref < int (length pages))"
          proof (cases "metadata_answer (map_of (sha1_to_meta a) sha) sha ?q ?kind")
            case None
            with assms e Some f d ne have "scan_pages chat sha ?q ?kind pages s1 = (r, s')"
              by (simp add: process_question_def Let_def)
            then show ?thesis by (rule scan_pages_references)
          next
            case (Some r')
            then have "r' = \<lparr> question_text = ?q, answer_value = ''False'',
                              references = [\<lparr> pdf_sha1 = sha, page_index = 0 \<rparr>] \<rparr>"
              by (auto simp: metadata_answer_def Let_def split: if_splits)
            moreover from assms e \<open>n = Some name\<close> f d ne Some have "r = r'"
              by (simp add: process_question_def Let_def)
            ultimately show ?thesis using ne by simp
          qed
          show ?thesis
          proof (intro conjI ballI)
            show "length (references r) \<le> 1" using refs by simp
          next
            fix ref assume "ref \<in> set (references r)"
            with refs have "pdf_sha1 ref = sha" "0 \<le> page_index ref"
              "page_index ref < int (length pages)" by auto
            with e Some f d ne show "\<exists>name s1 pages.
                 extract_company_name chat ?q s = (Some name, s1)
                 \<and> find_pdf_for_company a name = Some (pdf_sha1 ref)
                 \<and> pdf_dir a (pdf_sha1 ref) = Some pages
                 \<and> pages \<noteq> []
                 \<and> 0 \<le> page_index ref \<and> page_index ref < int (length pages)"
              by auto
          qed
        qed
      qed
    qed
  qed
qed

theorem references_point_into_document_witness:
  "process_question scripted (init acme_dir [acme] []) results_question
       [Some ''42'', Some '' 42 '']
     = (\<lparr> question_text = text_q results_question, answer_value = ''42'',
          references = [\<lparr> pdf_sha1 = ''abc123'', page_index = 1 \<rparr>] \<rparr>, [])
   \<and> (\<exists>pages. pdf_dir (init acme_dir [acme] []) ''abc123'' = Some pages
                \<and> 1 < int (length pages))"
proof -
  have h: "process_question scripted (init acme_dir [acme] []) results_question
               [Some ''42'', Some '' 42 '']
             = (\<lparr> question_text = text_q results_question, answer_value = ''42'',
                  references = [\<lparr> pdf_sha1 = ''abc123'', page_index = 1 \<rparr>] \<rparr>, [])"
    by code_simp
  show ?thesis
    using h references_point_into_document [OF h] by auto
qed

section \<open>The first answer stays\<close>

text \<open>
  An answer other than "N/A" comes with confidence 0.9, and no call returns more; so a
  pass that starts with a best confidence of 0.9 or more ends with the best it started
  with.
\<close>

lemma answer_real:
  "answer_question_with_llm chat q ctx kind s = ((a, c), s1) \<Longrightarrow> a \<noteq> ''N/A'' \<Longrightarrow> c = 9 / 10"
  using answer_confidence [of chat q ctx kind s a c s1] by auto

lemma priority_pass_sticky:
  "9 / 10 \<le> best_confidence b \<Longrightarrow> fst (priority_pass chat q kind pages prio starts b s) = b"
proof (induction starts arbitrary: s)
  case Nil
  then show ?case by simp
next
  case (Cons i starts)
  let ?ctx = "priority_context pages (take 5 (drop i prio))"
  obtain a c s1 where a: "answer_question_with_llm chat q ?ctx kind s = ((a, c), s1)"
    by (cases "answer_question_with_llm chat q ?ctx kind s") auto
  from answer_confidence [OF a] have "c \<le> 9 / 10" by auto
  with Cons.prems have "\<not> c > best_confidence b" by simp
  with a have "priority_pass chat q kind pages prio (i # starts) b s
                 = priority_pass chat q kind pages prio starts b s1"
    by (simp add: Let_def)
  with Cons.IH [OF Cons.prems] show ?case by simp
qed

lemma remaining_pass_sticky:
  "9 / 10 \<le> best_confidence b \<Longrightarrow> fst (remaining_pass chat q kind pages prio starts b s) = b"
proof (induction starts arbitrary: s)
  case Nil
  then show ?case by simp
next
  case (Cons i starts)
  let ?ctx = "remaining_context i (take 5 (drop i pages))"
  obtain a c s1 where a: "answer_question_with_llm chat q ?ctx kind s = ((a, c), s1)"
    by (cases "answer_question_with_llm chat q ?ctx kind s") auto
  from answer_confidence [OF a] have "c \<le> 9 / 10" by auto
  with Cons.prems have "\<not> c > best_confidence b" by simp
  with a have "fst (remaining_pass chat q kind pages prio (i # starts) b s)
          = fst (remaining_pass chat q kind pages prio starts b
              (if skipped prio i then s else s1))"
    by (simp add: Let_def)
  with Cons.IH [OF Cons.prems] show ?case by simp
qed

text \<open>
  From a best confidence below 0.9, a pass either sees "N/A" for every batch, keeps its
  best and leaves the state that asking all its batches leaves, or ends with the answer
  of its first batch that has one.
\<close>

lemma first_reply_append:
  "first_reply chat q kind (xs @ ys) s =
     (if first_reply chat q kind xs s \<noteq> ''N/A'' then first_reply chat q kind xs s
      else first_reply chat q kind ys (ask_all chat q kind xs s))"
proof (induction xs arbitrary: s)
  case Nil
  then show ?case by simp
next
  case (Cons x xs)
  obtain a c s1 where a: "answer_question_with_llm chat q x kind s = ((a, c), s1)"
    by (cases "answer_question_with_llm chat q x kind s") auto
  show ?case using a Cons.IH [of s1] by simp
qed

lemma priority_pass_first_reply:
  assumes "best_confidence b < 9 / 10"
    and "ctxs = map (\<lambda>i. priority_context pages (take 5 (drop i prio))) starts"
  shows "(first_reply chat q kind ctxs s = ''N/A'' \<longrightarrow>
            priority_pass chat q kind pages prio starts b s = (b, ask_all chat q kind ctxs s))
       \<and> (first_reply chat q kind ctxs s \<noteq> ''N/A'' \<longrightarrow>
            best_answer (fst (priority_pass chat q kind pages prio starts b s))
              = first_reply chat q kind ctxs s)"
  using assms(2)
proof (induction starts arbitrary: s ctxs)
  case Nil
  then show ?case by simp
next
  case (Cons i starts)
  let ?batch = "take 5 (drop i prio)"
  let ?ctx = "priority_context pages ?batch"
  let ?rest = "map (\<lambda>i. priority_context pages (take 5 (drop i prio))) starts"
  have ctxs: "ctxs = ?ctx # ?rest" using Cons.prems by simp
  obtain a c s1 where a: "answer_question_with_llm chat q ?ctx kind s = ((a, c), s1)"
    by (cases "answer_question_with_llm chat q ?ctx kind s") auto
  show ?case
  proof (cases "a = ''N/A''")
    case True
    with a have "priority_pass chat q kind pages prio (i # starts) b s
                   = priority_pass chat q kind pages prio starts b s1"
      by (simp add: Let_def)
    moreover from a True have "first_reply chat q kind ctxs s = first_reply chat q kind ?rest s1"
      by (simp add: ctxs)
    moreover from a have "ask_all chat q kind ctxs s = ask_all chat q kind ?rest s1"
      by (simp add: ctxs)
    ultimately show ?thesis using Cons.IH [of ?rest s1] by simp
  next
    case False
    from answer_real [OF a False] have c: "c = 9 / 10" .
    note a = a [unfolded c]
    obtain idx s2 where
      l: "locate_priority chat q kind pages a ?batch (best_page_idx b) s1 = (idx, s2)"
      by (cases "locate_priority chat q kind pages a ?batch (best_page_idx b) s1")
    let ?b = "\<lparr> best_answer = a, best_page_idx = idx, best_confidence = 9 / 10 \<rparr>"
    from a False l assms(1) have
      "priority_pass chat q kind pages prio (i # starts) b s
         = priority_pass chat q kind pages prio starts ?b s2"
      by (simp add: Let_def)
    moreover have "fst (priority_pass chat q kind pages prio starts ?b s2) = ?b"
      by (rule priority_pass_sticky) simp
    moreover from a False have "first_reply chat q kind ctxs s = a"
      by (simp add: ctxs)
    ultimately show ?thesis using False by simp
  qed
qed

lemma remaining_pass_first_reply:
  assumes "best_confidence b < 9 / 10"
    and "ctxs = map (\<lambda>i. remaining_context i (take 5 (drop i pages)))
                 (filter (\<lambda>i. \<not> skipped prio i) starts)"
  shows "(first_reply chat q kind ctxs s = ''N/A'' \<longrightarrow>
            remaining_pass chat q kind pages prio starts b s = (b, ask_all chat q kind ctxs s))
       \<and> (first_reply chat q kind ctxs s \<noteq> ''N/A'' \<longrightarrow>
            best_answer (fst (remaining_pass chat q kind pages prio starts b s))
              = first_reply chat q kind ctxs s)"
  using assms(2)
proof (induction starts arbitrary: s ctxs)
  case Nil
  then show ?case by simp
next
  case (Cons i starts)
  let ?batch = "take 5 (drop i pages)"
  let ?ctx = "remaining_context i ?batch"
  let ?rest = "map (\<lambda>i. remaining_context i (take 5 (drop i pages)))
                 (filter (\<lambda>i. \<not> skipped prio i) starts)"
  show ?case
  proof (cases "skipped prio i")
    case True
    then have "ctxs = ?rest" using Cons.prems by simp
    moreover from True have "remaining_pass chat q kind pages prio (i # starts) b s
                   = remaining_pass chat q kind pages prio starts b s"
      by simp
    ultimately show ?thesis using Cons.IH [of ?rest s] by simp
  next
    case ns: False
    then have ctxs: "ctxs = ?ctx # ?rest" using Cons.prems by simp
    obtain a c s1 where a: "answer_question_with_llm chat q ?ctx kind s = ((a, c), s1)"
      by (cases "answer_question_with_llm chat q ?ctx kind s") auto
    show ?thesis
    proof (cases "a = ''N/A''")
      case True
      with a ns have "remaining_pass chat q kind pages prio (i # starts) b s
                     = remaining_pass chat q kind pages prio starts b s1"
        by (simp add: Let_def)
      moreover from a True have
        "first_reply chat q kind ctxs s = first_reply chat q kind ?rest s1"
        by (simp add: ctxs)
      moreover from a have "ask_all chat q kind ctxs s = ask_all chat q kind ?rest s1"
        by (simp add: ctxs)
      ultimately show ?thesis using Cons.IH [of ?rest s1] by simp
    next
      case False
      from answer_real [OF a False] have c: "c = 9 / 10" .
      note a = a [unfolded c]
      obtain idx s2 where
        l: "locate_remaining chat q kind a i 0 ?batch (best_page_idx b) s1 = (idx, s2)"
        by (cases "locate_remaining chat q kind a i 0 ?batch (best_page_idx b) s1")
      let ?b = "\<lparr> best_answer = a, best_page_idx = idx, best_confidence = 9 / 10 \<rparr>"
      from a False l ns assms(1) have
        "remaining_pass chat q kind pages prio (i # starts) b s
           = remaining_pass chat q kind pages prio starts ?b s2"
        by (simp add: Let_def)
      moreover have "fst (remaining_pass chat q kind pages prio starts ?b s2) = ?b"
        by (rule remaining_pass_sticky) simp
      moreover from a False have "first_reply chat q kind ctxs s = a"
        by (simp add: ctxs)
      ultimately show ?thesis using False by simp
    qed
  qed
qed

lemma scan_pages_first_reply:
  "answer_value (fst (scan_pages chat sha q kind pages s)) =
     first_reply chat q kind
       (priority_contexts pages (priority_pages q pages)
        @ remaining_contexts pages (priority_pages q pages)) s"
proof -
  let ?b0 = "\<lparr> best_answer = ''N/A'', best_page_idx = - 1, best_confidence = 0 \<rparr>"
  let ?prio = "priority_pages q pages"
  let ?P = "priority_contexts pages ?prio"
  let ?R = "remaining_contexts pages ?prio"
  let ?first = "if ?prio \<noteq> []
            then priority_pass chat q kind pages ?prio (range_step 0 (length ?prio) 5) ?b0 s
            else (?b0, s)"
  obtain b1 s1 where p: "?first = (b1, s1)" by (cases ?first)
  let ?second = "if best_answer b1 = ''N/A''
                 then remaining_pass chat q kind pages ?prio
                        (range_step 0 (length pages) 5) b1 s1
                 else (b1, s1)"
  obtain b2 s2 where r: "?second = (b2, s2)" by (cases ?second)
  have val: "answer_value (fst (scan_pages chat sha q kind pages s)) = best_answer b2"
    by (simp add: scan_pages_def Let_def p r)
  have lt: "best_confidence ?b0 < 9 / 10" by simp
  have pp: "priority_pass chat q kind pages ?prio (range_step 0 (length ?prio) 5) ?b0 s
              = (b1, s1)"
  proof (cases "?prio = []")
    case True
    with p show ?thesis by (simp add: range_step.simps)
  next
    case False
    with p show ?thesis by simp
  qed
  note P = priority_pass_first_reply [OF lt, of ?P pages ?prio "range_step 0 (length ?prio) 5"
      chat q kind s, unfolded pp]
  have Pdef: "?P = map (\<lambda>i. priority_context pages (take 5 (drop i ?prio)))
                     (range_step 0 (length ?prio) 5)"
    by (simp add: priority_contexts_def)
  have Rdef: "?R = map (\<lambda>i. remaining_context i (take 5 (drop i pages)))
                 (filter (\<lambda>i. \<not> skipped ?prio i) (range_step 0 (length pages) 5))"
    by (simp add: remaining_contexts_def)
  show ?thesis
  proof (cases "first_reply chat q kind ?P s = ''N/A''")
    case True
    with P [OF Pdef] have b1: "b1 = ?b0" "s1 = ask_all chat q kind ?P s" by simp_all
    then have rp: "remaining_pass chat q kind pages ?prio (range_step 0 (length pages) 5) ?b0
                     (ask_all chat q kind ?P s) = (b2, s2)"
      using r by simp
    note R = remaining_pass_first_reply [OF lt Rdef, of chat q kind "ask_all chat q kind ?P s",
        unfolded rp]
    have "best_answer b2 = first_reply chat q kind ?R (ask_all chat q kind ?P s)"
    proof (cases "first_reply chat q kind ?R (ask_all chat q kind ?P s) = ''N/A''")
      case True
      with R show ?thesis by simp
    next
      case False
      with R show ?thesis by simp
    qed
    with True val show ?thesis by (simp add: first_reply_append)
  next
    case False
    with P [OF Pdef] have "best_answer b1 = first_reply chat q kind ?P s" by simp
    with False r have "best_answer b2 = first_reply chat q kind ?P s" by auto
    with False val show ?thesis by (simp add: first_reply_append)
  qed
qed

text \<open>
  Claim C9. An answer other than "N/A" is returned with confidence 0.9; a best answer
  other than "N/A" with confidence 0.9 is what either pass ends with, whatever the client
  replies afterwards; and the value of the record that the page scan returns is the answer
  of the first batch, priority batches first and then the batches of the remaining pass
  that are not skipped, whose answer is not "N/A" ("N/A" when there is none).
\<close>

theorem first_answer_is_final:
  "(\<forall>a c s1. answer_question_with_llm chat q ctx kind s = ((a, c), s1) \<and> a \<noteq> ''N/A''
       \<longrightarrow> c = 9 / 10)
   \<and> (best_answer b \<noteq> ''N/A'' \<and> best_confidence b = 9 / 10 \<longrightarrow>
        fst (priority_pass chat q kind pages prio starts b s) = b
        \<and> fst (remaining_pass chat q kind pages prio starts b s) = b)
   \<and> answer_value (fst (scan_pages chat sha q kind pages s)) =
       first_reply chat q kind
         (priority_contexts pages (priority_pages q pages)
          @ remaining_contexts pages (priority_pages q pages)) s"
proof -
  have 1: "\<forall>a c s1. answer_question_with_llm chat q ctx kind s = ((a, c), s1) \<and> a \<noteq> ''N/A''
       \<longrightarrow> c = 9 / 10"
  proof (intro allI impI)
    fix a c s1
    assume "answer_question_with_llm chat q ctx kind s = ((a, c), s1) \<and> a \<noteq> ''N/A''"
    then show "c = 9 / 10" using answer_real [of chat q ctx kind s a c s1] by simp
  qed
  have 2: "best_answer b \<noteq> ''N/A'' \<and> best_confidence b = 9 / 10 \<longrightarrow>
        fst (priority_pass chat q kind pages prio starts b s) = b
        \<and> fst (remaining_pass chat q kind pages prio starts b s) = b"
    by (simp add: priority_pass_sticky remaining_pass_sticky)
  note 3 = scan_pages_first_reply [of chat sha q kind pages s]
  show ?thesis by (rule conjI [OF 1 conjI [OF 2 3]])
qed

theorem first_answer_is_final_witness:
  "best_answer accepted \<noteq> ''N/A'' \<and> best_confidence accepted = 9 / 10
   \<and> fst (priority_pass scripted ''What risk is named?'' ''names'' seven_pages [6] [0] accepted
            [Some ''N/A'', Some ''fire'', Some ''fire'']) = accepted
   \<and> priority_pages ''What risk is named?'' seven_pages = [6]
   \<and> answer_value (fst (scan_pages scripted ''abc123'' ''What risk is named?'' ''names''
                           seven_pages [Some ''N/A'', Some ''fire'', Some ''fire''])) = ''fire''"
proof -
  have h: "best_answer accepted \<noteq> ''N/A'' \<and> best_confidence accepted = 9 / 10"
    by (simp add: accepted_def)
  have p: "priority_pages ''What risk is named?'' seven_pages = [6]"
    by code_simp
  have f: "first_reply scripted ''What risk is named?'' ''names''
             (priority_contexts seven_pages (priority_pages ''What risk is named?'' seven_pages)
              @ remaining_contexts seven_pages
                  (priority_pages ''What risk is named?'' seven_pages))
             [Some ''N/A'', Some ''fire'', Some ''fire''] = ''fire''"
    by code_simp
  show ?thesis
    using h p f first_answer_is_final [where chat = scripted and q = "''What risk is named?''"
        and kind = "''names''" and pages = seven_pages and prio = "[6]" and starts = "[0]"
        and b = accepted and sha = "''abc123''"
        and s = "[Some ''N/A'', Some ''fire'', Some ''fire'']"]
    by simp
qed

end
